theory Spec2Isabelle
  imports Main "HOL-Library.Monad_Syntax"
begin

section \<open>Memory\<close>

text \<open>
  A C pointer is an optional address: \<open>None\<close> is \<open>NULL\<close>. The memory holds the list
  cells and the table elements that \<open>mtftable.c\<close> allocates, and the addresses the allocator
  still has to give. A function of the model returns \<open>None\<close> where the C execution has no
  defined result: it dereferences \<open>NULL\<close> or a pointer to no live object of the right type
  (for a loop, \<open>None\<close> is also the scan that never ends).
\<close>

type_synonym addr = nat
type_synonym ptr = "addr option"

text \<open>A cell of the singly linked list of \<open>dlist.h\<close>: a payload pointer and a link.\<close>

record cell =
  data :: ptr
  next_c :: ptr

text \<open>
  \<open>struct TableElement\<close>. \<open>KEY\<close> is an opaque reference \<open>'k\<close>; \<open>VALUE\<close> is a pointer that
  \<open>table_lookup\<close> compares with nothing but returns, and it can be \<open>NULL\<close>: \<open>'v option\<close>.
\<close>

record ('k, 'v) TableElement =
  key :: 'k
  value_e :: "'v option"

datatype ('k, 'v) obj = Cell cell | Elem "('k, 'v) TableElement"

record ('k, 'v) memory =
  heap :: "addr \<rightharpoonup> ('k, 'v) obj"
  avail :: "addr list"

text \<open>
  \<open>malloc\<close>: the next available address, or \<open>NULL\<close> when none is left. The storage is
  not initialised: the heap has no object there until one is stored.
\<close>

definition malloc :: "('k, 'v) memory \<Rightarrow> ptr \<times> ('k, 'v) memory" where
  "malloc m = (case avail m of [] \<Rightarrow> (None, m) | a # as \<Rightarrow> (Some a, m\<lparr>avail := as\<rparr>))"

text \<open>\<open>free\<close>: nothing on \<open>NULL\<close>, undefined on an address that holds no object.\<close>

definition free :: "ptr \<Rightarrow> ('k, 'v) memory \<Rightarrow> ('k, 'v) memory option" where
  "free p m =
     (case p of
        None \<Rightarrow> Some m
      | Some a \<Rightarrow>
          (case heap m a of
             None \<Rightarrow> None
           | Some x \<Rightarrow> Some (m\<lparr>heap := (heap m)(a := None), avail := avail m @ [a]\<rparr>)))"

definition cell_at :: "('k, 'v) memory \<Rightarrow> ptr \<Rightarrow> cell option" where
  "cell_at m p =
     (case p of
        None \<Rightarrow> None
      | Some a \<Rightarrow> (case heap m a of Some (Cell c) \<Rightarrow> Some c | Some (Elem e) \<Rightarrow> None | None \<Rightarrow> None))"

definition elem_at :: "('k, 'v) memory \<Rightarrow> ptr \<Rightarrow> ('k, 'v) TableElement option" where
  "elem_at m p =
     (case p of
        None \<Rightarrow> None
      | Some a \<Rightarrow> (case heap m a of Some (Elem e) \<Rightarrow> Some e | Some (Cell c) \<Rightarrow> None | None \<Rightarrow> None))"

text \<open>The assignment \<open>p->next = q\<close>.\<close>

definition set_next :: "('k, 'v) memory \<Rightarrow> ptr \<Rightarrow> ptr \<Rightarrow> ('k, 'v) memory option" where
  "set_next m p q =
     (case p of
        None \<Rightarrow> None
      | Some a \<Rightarrow>
          (case cell_at m p of
             None \<Rightarrow> None
           | Some c \<Rightarrow> Some (m\<lparr>heap := (heap m)(a \<mapsto> Cell (c\<lparr>next_c := q\<rparr>))\<rparr>)))"

text \<open>Writing every field of an object into storage that \<open>malloc\<close> returned.\<close>

definition store :: "('k, 'v) memory \<Rightarrow> ptr \<Rightarrow> ('k, 'v) obj \<Rightarrow> ('k, 'v) memory option" where
  "store m p x =
     (case p of
        None \<Rightarrow> None
      | Some a \<Rightarrow> Some (m\<lparr>heap := (heap m)(a \<mapsto> x)\<rparr>))"

section \<open>The list of \<open>dlist.h\<close>\<close>

text \<open>
  \<open>dlist.c\<close> is not part of the sources. Its operations are modelled from the way
  \<open>mtftable.c\<close> uses the list (the matching cell of a position \<open>p\<close> is \<open>p->next\<close>, the first
  cell is \<open>head->next\<close>) and from the specification's ordered sequence with a head sentinel.
\<close>

record ('k, 'v) dlist =
  head :: ptr
  freeFunc :: "(ptr \<Rightarrow> ('k, 'v) memory \<Rightarrow> ('k, 'v) memory option) option"

text \<open>Modelled from the spec: \<open>dlist_empty\<close> (create-empty), a head sentinel with no successor
  and no payload cleanup callback.\<close>

definition dlist_empty :: "('k, 'v) memory \<Rightarrow> (('k, 'v) dlist \<times> ('k, 'v) memory) option" where
  "dlist_empty m =
     (case malloc m of
        (h, m1) \<Rightarrow> do {
          m2 \<leftarrow> store m1 h (Cell \<lparr>data = None, next_c = None\<rparr>);
          Some (\<lparr>head = h, freeFunc = None\<rparr>, m2)
        })"

text \<open>Modelled from the spec: \<open>dlist_setMemHandler\<close>, the per-payload cleanup callback.\<close>

definition dlist_setMemHandler ::
  "('k, 'v) dlist \<Rightarrow> (ptr \<Rightarrow> ('k, 'v) memory \<Rightarrow> ('k, 'v) memory option) \<Rightarrow> ('k, 'v) dlist" where
  "dlist_setMemHandler l f = l\<lparr>freeFunc := Some f\<rparr>"

text \<open>Modelled from the spec: \<open>dlist_first\<close>, the position before the first entry, which is
  the head sentinel.\<close>

definition dlist_first :: "('k, 'v) dlist \<Rightarrow> ptr" where
  "dlist_first l = head l"

text \<open>Modelled from the spec: \<open>dlist_next\<close> (advance-position), \<open>p->next\<close>.\<close>

definition dlist_next :: "('k, 'v) memory \<Rightarrow> ('k, 'v) dlist \<Rightarrow> ptr \<Rightarrow> ptr option" where
  "dlist_next m l p = do { c \<leftarrow> cell_at m p; Some (next_c c) }"

text \<open>Modelled from the spec: \<open>dlist_isEnd\<close> (is-end), \<open>p->next == NULL\<close>.\<close>

definition dlist_isEnd :: "('k, 'v) memory \<Rightarrow> ('k, 'v) dlist \<Rightarrow> ptr \<Rightarrow> bool option" where
  "dlist_isEnd m l p = do { c \<leftarrow> cell_at m p; Some (next_c c = None) }"

text \<open>Modelled from the spec: \<open>dlist_isEmpty\<close> (is-empty), \<open>head->next == NULL\<close>.\<close>

definition dlist_isEmpty :: "('k, 'v) memory \<Rightarrow> ('k, 'v) dlist \<Rightarrow> bool option" where
  "dlist_isEmpty m l = do { c \<leftarrow> cell_at m (head l); Some (next_c c = None) }"

text \<open>Modelled from the spec: \<open>dlist_inspect\<close> (inspect-at-position), \<open>p->next->data\<close>.\<close>

definition dlist_inspect :: "('k, 'v) memory \<Rightarrow> ('k, 'v) dlist \<Rightarrow> ptr \<Rightarrow> ptr option" where
  "dlist_inspect m l p = do { c \<leftarrow> cell_at m p; n \<leftarrow> cell_at m (next_c c); Some (data n) }"

text \<open>Modelled from the spec: \<open>dlist_insert\<close> (insert-before-position), a new cell between
  \<open>p\<close> and \<open>p->next\<close>; the position returned is \<open>p\<close>.\<close>

definition dlist_insert ::
  "('k, 'v) memory \<Rightarrow> ('k, 'v) dlist \<Rightarrow> ptr \<Rightarrow> ptr \<Rightarrow> (ptr \<times> ('k, 'v) memory) option" where
  "dlist_insert m l p d =
     (case malloc m of
        (n, m1) \<Rightarrow> do {
          c \<leftarrow> cell_at m1 p;
          m2 \<leftarrow> store m1 n (Cell \<lparr>data = d, next_c = next_c c\<rparr>);
          m3 \<leftarrow> set_next m2 p n;
          Some (p, m3)
        })"

text \<open>Modelled from the spec: \<open>dlist_remove\<close> (remove-at-position), which unlinks \<open>p->next\<close>,
  runs the cleanup callback on its payload, frees the cell and returns \<open>p\<close>, now the position
  of the entry that followed.\<close>

definition dlist_remove ::
  "('k, 'v) memory \<Rightarrow> ('k, 'v) dlist \<Rightarrow> ptr \<Rightarrow> (ptr \<times> ('k, 'v) memory) option" where
  "dlist_remove m l p = do {
     c \<leftarrow> cell_at m p;
     let temp = next_c c;
     tc \<leftarrow> cell_at m temp;
     m1 \<leftarrow> set_next m p (next_c tc);
     m2 \<leftarrow> (case freeFunc l of None \<Rightarrow> Some m1 | Some f \<Rightarrow> f (data tc) m1);
     m3 \<leftarrow> free temp m2;
     Some (p, m3)
   }"

text \<open>Modelled from the spec: \<open>dlist_free\<close> (bulk free), which removes every entry that is
  left and frees the head sentinel.\<close>

partial_function (option) dlist_free_loop ::
  "('k, 'v) memory \<Rightarrow> ('k, 'v) dlist \<Rightarrow> ('k, 'v) memory option" where
  "dlist_free_loop m l = do {
     e \<leftarrow> dlist_isEmpty m l;
     if e then Some m
     else do {
       (p, m1) \<leftarrow> dlist_remove m l (dlist_first l);
       dlist_free_loop m1 l
     }
   }"

definition dlist_free :: "('k, 'v) memory \<Rightarrow> ('k, 'v) dlist \<Rightarrow> ('k, 'v) memory option" where
  "dlist_free m l = do { m1 \<leftarrow> dlist_free_loop m l; free (head l) m1 }"

section \<open>The table of \<open>mtftable.c\<close>\<close>

text \<open>
  A key destructor (\<open>KeyFreeFunc\<close>) is a function of the caller. The model keeps what a call
  does to the caller's world \<open>'w\<close>, so that every call is visible there, and whether the
  call releases the storage its argument points to, as \<open>free\<close> does. A key is a pointer
  (\<open>'k\<close>, equal keys are the same pointer) and the comparator reads what its two arguments
  point to: once a key is released, a comparison that takes it has no defined result.
\<close>

record ('k, 'w) KeyFreeFunc =
  act :: "'k \<Rightarrow> 'w \<Rightarrow> 'w"
  releases :: bool

text \<open>
  \<open>struct MyTable\<close>. A callback that is \<open>NULL\<close> is \<open>None\<close>. The value destructor acts on
  the caller's world as well. The struct is passed by value: an operation that changes a
  field returns the struct.
\<close>

record ('k, 'v, 'w) MyTable =
  values_t :: "('k, 'v) dlist"
  cf :: "'k \<Rightarrow> 'k \<Rightarrow> int"
  keyFree :: "('k, 'w) KeyFreeFunc option"
  valueFree :: "('v option \<Rightarrow> 'w \<Rightarrow> 'w) option"

text \<open>
  \<open>table_create\<close>: the result is \<open>NULL\<close> when \<open>calloc\<close> fails. \<open>calloc\<close> zeroes the struct, so
  both destructors start as \<open>NULL\<close>. The storage of the struct is one address taken from the
  allocator.
\<close>

definition table_create ::
  "('k, 'v) memory \<Rightarrow> ('k \<Rightarrow> 'k \<Rightarrow> int) \<Rightarrow> (('k, 'v, 'w) MyTable option \<times> ('k, 'v) memory) option" where
  "table_create m compare_function =
     (case malloc m of
        (None, m1) \<Rightarrow> Some (None, m1)
      | (Some t, m1) \<Rightarrow> do {
          (l, m2) \<leftarrow> dlist_empty m1;
          let l = dlist_setMemHandler l free;
          Some (Some \<lparr>values_t = l, cf = compare_function, keyFree = None, valueFree = None\<rparr>, m2)
        })"

definition table_setKeyMemHandler ::
  "('k, 'v, 'w) MyTable \<Rightarrow> ('k, 'w) KeyFreeFunc option \<Rightarrow> ('k, 'v, 'w) MyTable" where
  "table_setKeyMemHandler t f = t\<lparr>keyFree := f\<rparr>"

definition table_setValueMemHandler ::
  "('k, 'v, 'w) MyTable \<Rightarrow> ('v option \<Rightarrow> 'w \<Rightarrow> 'w) option \<Rightarrow> ('k, 'v, 'w) MyTable" where
  "table_setValueMemHandler t f = t\<lparr>valueFree := f\<rparr>"

definition table_isEmpty :: "('k, 'v) memory \<Rightarrow> ('k, 'v, 'w) MyTable \<Rightarrow> bool option" where
  "table_isEmpty m t = dlist_isEmpty m (values_t t)"

text \<open>
  \<open>table_insert\<close>: the result of \<open>malloc\<close> is not tested; \<open>e->key = key\<close> and
  \<open>e->value = value\<close> write through it. The function returns nothing.
\<close>

definition table_insert ::
  "('k, 'v) memory \<Rightarrow> ('k, 'v, 'w) MyTable \<Rightarrow> 'k \<Rightarrow> 'v option \<Rightarrow> ('k, 'v) memory option" where
  "table_insert m t k v =
     (case malloc m of
        (e, m1) \<Rightarrow> do {
          m2 \<leftarrow> store m1 e (Elem \<lparr>key = k, value_e = v\<rparr>);
          (p, m3) \<leftarrow> dlist_insert m2 (values_t t) (dlist_first (values_t t)) e;
          Some m3
        })"

text \<open>
  The body of the \<open>if\<close> of \<open>table_lookup\<close> (lines 114 to 127): \<open>p\<close> is the position of the
  match, so the matching cell is \<open>p->next\<close>, and \<open>i\<close> is its element.
\<close>

definition move_to_front ::
  "('k, 'v) memory \<Rightarrow> ('k, 'v, 'w) MyTable \<Rightarrow> ptr \<Rightarrow> ptr \<Rightarrow> ('v option \<times> ('k, 'v) memory) option" where
  "move_to_front m t p i = do {
     c \<leftarrow> cell_at m p;
     n \<leftarrow> cell_at m (next_c c);
     let temp1 = next_c n;
     h \<leftarrow> cell_at m (head (values_t t));
     let temp2 = next_c h;
     m1 \<leftarrow> set_next m (head (values_t t)) (next_c c);
     c1 \<leftarrow> cell_at m1 p;
     m2 \<leftarrow> set_next m1 (next_c c1) temp2;
     m3 \<leftarrow> set_next m2 p temp1;
     e \<leftarrow> elem_at m3 i;
     Some (value_e e, m3)
   }"

partial_function (option) lookup_loop ::
  "('k, 'v) memory \<Rightarrow> ('k, 'v, 'w) MyTable \<Rightarrow> 'k \<Rightarrow> ptr \<Rightarrow> ('v option \<times> ('k, 'v) memory) option" where
  "lookup_loop m t k p = do {
     e \<leftarrow> dlist_isEnd m (values_t t) p;
     if e then Some (None, m)
     else do {
       i \<leftarrow> dlist_inspect m (values_t t) p;
       el \<leftarrow> elem_at m i;
       if cf t (key el) k = 0 then move_to_front m t p i
       else do {
         p' \<leftarrow> dlist_next m (values_t t) p;
         lookup_loop m t k p'
       }
     }
   }"

definition table_lookup ::
  "('k, 'v) memory \<Rightarrow> ('k, 'v, 'w) MyTable \<Rightarrow> 'k \<Rightarrow> ('v option \<times> ('k, 'v) memory) option" where
  "table_lookup m t k = lookup_loop m t k (dlist_first (values_t t))"

text \<open>The two guarded destructor calls of \<open>table_remove\<close> and \<open>table_free\<close>.\<close>

definition call_keyFree :: "('k, 'v, 'w) MyTable \<Rightarrow> 'k \<Rightarrow> 'w \<Rightarrow> 'w" where
  "call_keyFree t k w = (case keyFree t of None \<Rightarrow> w | Some f \<Rightarrow> act f k w)"

definition call_valueFree :: "('k, 'v, 'w) MyTable \<Rightarrow> 'v option \<Rightarrow> 'w \<Rightarrow> 'w" where
  "call_valueFree t v w = (case valueFree t of None \<Rightarrow> w | Some f \<Rightarrow> f v w)"

text \<open>
  \<open>dead\<close> are the keys that the key destructor has released so far in a call of
  \<open>table_remove\<close>; \<open>released t k dead\<close> are these keys after \<open>t->keyFree(k)\<close> of line 151.
\<close>

definition released :: "('k, 'v, 'w) MyTable \<Rightarrow> 'k \<Rightarrow> 'k list \<Rightarrow> 'k list" where
  "released t k dead =
     (case keyFree t of None \<Rightarrow> dead | Some f \<Rightarrow> if releases f then k # dead else dead)"

text \<open>
  The call \<open>t->cf(i->key, key)\<close> of line 149: the comparator reads both keys, which is
  undefined when the key destructor has released one of them (line 151, in an earlier turn
  of the loop).
\<close>

definition compare_keys :: "('k, 'v, 'w) MyTable \<Rightarrow> 'k list \<Rightarrow> 'k \<Rightarrow> 'k \<Rightarrow> int option" where
  "compare_keys t dead a b = (if a \<in> set dead \<or> b \<in> set dead then None else Some (cf t a b))"

partial_function (option) remove_loop ::
  "('k, 'v) memory \<Rightarrow> 'w \<Rightarrow> 'k list \<Rightarrow> ('k, 'v, 'w) MyTable \<Rightarrow> 'k \<Rightarrow> ptr \<Rightarrow>
   (('k, 'v) memory \<times> 'w) option" where
  "remove_loop m w dead t k p = do {
     e \<leftarrow> dlist_isEnd m (values_t t) p;
     if e then Some (m, w)
     else do {
       i \<leftarrow> dlist_inspect m (values_t t) p;
       el \<leftarrow> elem_at m i;
       c \<leftarrow> compare_keys t dead (key el) k;
       if c = 0 then do {
         let w1 = call_keyFree t (key el) w;
         let dead1 = released t (key el) dead;
         let w2 = call_valueFree t (value_e el) w1;
         (p', m') \<leftarrow> dlist_remove m (values_t t) p;
         remove_loop m' w2 dead1 t k p'
       }
       else do {
         p' \<leftarrow> dlist_next m (values_t t) p;
         remove_loop m w dead t k p'
       }
     }
   }"

text \<open>At the call of \<open>table_remove\<close> every key is live.\<close>

definition table_remove ::
  "('k, 'v) memory \<Rightarrow> 'w \<Rightarrow> ('k, 'v, 'w) MyTable \<Rightarrow> 'k \<Rightarrow> (('k, 'v) memory \<times> 'w) option" where
  "table_remove m w t k = remove_loop m w [] t k (dlist_first (values_t t))"

partial_function (option) free_loop ::
  "('k, 'v) memory \<Rightarrow> 'w \<Rightarrow> ('k, 'v, 'w) MyTable \<Rightarrow> ptr \<Rightarrow> (('k, 'v) memory \<times> 'w) option" where
  "free_loop m w t p = do {
     e \<leftarrow> dlist_isEnd m (values_t t) p;
     if e then Some (m, w)
     else do {
       i \<leftarrow> dlist_inspect m (values_t t) p;
       el \<leftarrow> elem_at m i;
       let w1 = call_keyFree t (key el) w;
       let w2 = call_valueFree t (value_e el) w1;
       (p', m') \<leftarrow> dlist_remove m (values_t t) p;
       free_loop m' w2 t p'
     }
   }"

text \<open>\<open>table_free\<close>; the last \<open>free(t)\<close> releases the struct, which the model passes by value.\<close>

definition table_free ::
  "('k, 'v) memory \<Rightarrow> 'w \<Rightarrow> ('k, 'v, 'w) MyTable \<Rightarrow> (('k, 'v) memory \<times> 'w) option" where
  "table_free m w t = do {
     (m1, w1) \<leftarrow> free_loop m w t (dlist_first (values_t t));
     m2 \<leftarrow> dlist_free m1 (values_t t);
     Some (m2, w1)
   }"

section \<open>The sequence a table holds\<close>

text \<open>
  The entries of a table, front to back, each with the address of its cell and the address of
  its element. \<open>chain m p xs q\<close>: following the links from \<open>p\<close> visits the cells of \<open>xs\<close> in
  order and ends at \<open>q\<close>; every cell points to its live element.
\<close>

type_synonym ('k, 'v) shape = "(addr \<times> addr \<times> ('k, 'v) TableElement) list"

fun chain :: "('k, 'v) memory \<Rightarrow> ptr \<Rightarrow> ('k, 'v) shape \<Rightarrow> ptr \<Rightarrow> bool" where
  "chain m p [] q = (p = q)"
| "chain m p ((a, d, e) # xs) q =
     (p = Some a \<and>
      (case cell_at m p of
         None \<Rightarrow> False
       | Some c \<Rightarrow> data c = Some d \<and> elem_at m (data c) = Some e \<and> chain m (next_c c) xs q))"

definition cells_of :: "('k, 'v) shape \<Rightarrow> addr list" where
  "cells_of xs = map fst xs"

definition elems_of :: "('k, 'v) shape \<Rightarrow> addr list" where
  "elems_of xs = map (fst \<circ> snd) xs"

text \<open>
  \<open>table_inv m t xs\<close>: the head sentinel of the table is a live cell, the list behind it is
  \<open>xs\<close> and ends with \<open>NULL\<close>, no two cells share an element, and the cleanup callback of the
  list is \<open>free\<close>, as \<open>table_create\<close> sets it. \<open>table_create\<close> establishes it and
  \<open>table_insert\<close>, \<open>table_lookup\<close> and \<open>table_remove\<close> keep it (\<open>create_inv\<close>, \<open>insert_inv\<close>,
  \<open>lookup_first\<close>, \<open>lookup_later\<close>, \<open>lookup_miss\<close>, \<open>remove_inv\<close>).
\<close>

definition table_inv :: "('k, 'v) memory \<Rightarrow> ('k, 'v, 'w) MyTable \<Rightarrow> ('k, 'v) shape \<Rightarrow> bool" where
  "table_inv m t xs =
     (case cell_at m (head (values_t t)) of
        None \<Rightarrow> False
      | Some h \<Rightarrow>
          chain m (next_c h) xs None \<and> distinct (elems_of xs) \<and>
          freeFunc (values_t t) = Some free)"

text \<open>What \<open>malloc\<close> may still return is not in use.\<close>

definition mem_ok :: "('k, 'v) memory \<Rightarrow> bool" where
  "mem_ok m = (distinct (avail m) \<and> list_all (\<lambda>a. heap m a = None) (avail m))"

text \<open>
  An entry matches \<open>k\<close> when the comparator returns zero on its key. \<open>destroy\<close> is what
  \<open>table_remove\<close> and \<open>table_free\<close> do to the caller's world for one entry: the key destructor
  on its key, then the value destructor on its value, each when registered.
\<close>

definition matches :: "('k, 'v, 'w) MyTable \<Rightarrow> 'k \<Rightarrow> addr \<times> addr \<times> ('k, 'v) TableElement \<Rightarrow> bool" where
  "matches t k x = (cf t (key (snd (snd x))) k = 0)"

definition destroy :: "('k, 'v, 'w) MyTable \<Rightarrow> 'w \<Rightarrow> addr \<times> addr \<times> ('k, 'v) TableElement \<Rightarrow> 'w" where
  "destroy t w x = call_valueFree t (value_e (snd (snd x))) (call_keyFree t (key (snd (snd x))) w)"

text \<open>The key pointers a table holds, and whether its key destructor releases them.\<close>

definition keys_of :: "('k, 'v) shape \<Rightarrow> 'k list" where
  "keys_of xs = map (\<lambda>x. key (snd (snd x))) xs"

definition key_released :: "('k, 'v, 'w) MyTable \<Rightarrow> bool" where
  "key_released t = (case keyFree t of None \<Rightarrow> False | Some f \<Rightarrow> releases f)"

section \<open>Scenarios\<close>

text \<open>
  Scenario A of the specification: a table with a numeric comparator, into which
  \<open>(1, a)\<close>, \<open>(2, b)\<close> and \<open>(3, c)\<close> are inserted in this order. \<open>memA\<close> and \<open>tableA\<close> are the
  memory and the struct that the three calls leave (\<open>scenario_A_eq\<close>); \<open>mem1\<close> is the memory
  after the insertion of \<open>(1, a)\<close> alone, \<open>memN\<close> after the insertion of \<open>(7, NULL)\<close> alone.
\<close>

definition compare_int :: "int \<Rightarrow> int \<Rightarrow> int" where
  "compare_int a b = (if a < b then - 1 else if a = b then 0 else 1)"

definition mem0 :: "(int, string) memory" where
  "mem0 = \<lparr>heap = Map.empty, avail = [1, 2, 3, 4, 5, 6, 7, 8, 9, 10]\<rparr>"

definition entry_a :: "addr \<times> addr \<times> (int, string) TableElement" where
  "entry_a = (4, 3, \<lparr>key = 1, value_e = Some ''a''\<rparr>)"

definition entry_b :: "addr \<times> addr \<times> (int, string) TableElement" where
  "entry_b = (6, 5, \<lparr>key = 2, value_e = Some ''b''\<rparr>)"

definition entry_c :: "addr \<times> addr \<times> (int, string) TableElement" where
  "entry_c = (8, 7, \<lparr>key = 3, value_e = Some ''c''\<rparr>)"

definition tableA :: "(int, string, unit) MyTable" where
  "tableA = \<lparr>values_t = \<lparr>head = Some 2, freeFunc = Some free\<rparr>, cf = compare_int,
              keyFree = None, valueFree = None\<rparr>"

definition memA :: "(int, string) memory" where
  "memA = \<lparr>heap = [2 \<mapsto> Cell \<lparr>data = None, next_c = Some 8\<rparr>,
                    3 \<mapsto> Elem \<lparr>key = 1, value_e = Some ''a''\<rparr>,
                    4 \<mapsto> Cell \<lparr>data = Some 3, next_c = None\<rparr>,
                    5 \<mapsto> Elem \<lparr>key = 2, value_e = Some ''b''\<rparr>,
                    6 \<mapsto> Cell \<lparr>data = Some 5, next_c = Some 4\<rparr>,
                    7 \<mapsto> Elem \<lparr>key = 3, value_e = Some ''c''\<rparr>,
                    8 \<mapsto> Cell \<lparr>data = Some 7, next_c = Some 6\<rparr>],
            avail = [9, 10]\<rparr>"

definition scenario_A :: "((int, string, unit) MyTable \<times> (int, string) memory) option" where
  "scenario_A = do {
     (r, m1) \<leftarrow> table_create mem0 compare_int;
     t \<leftarrow> r;
     m2 \<leftarrow> table_insert m1 t 1 (Some ''a'');
     m3 \<leftarrow> table_insert m2 t 2 (Some ''b'');
     m4 \<leftarrow> table_insert m3 t 3 (Some ''c'');
     Some (t, m4)
   }"

definition mem1 :: "(int, string) memory" where
  "mem1 = \<lparr>heap = [2 \<mapsto> Cell \<lparr>data = None, next_c = Some 4\<rparr>,
                    3 \<mapsto> Elem \<lparr>key = 1, value_e = Some ''a''\<rparr>,
                    4 \<mapsto> Cell \<lparr>data = Some 3, next_c = None\<rparr>],
            avail = [5, 6, 7, 8, 9, 10]\<rparr>"

definition entry_null :: "addr \<times> addr \<times> (int, string) TableElement" where
  "entry_null = (4, 3, \<lparr>key = 7, value_e = None\<rparr>)"

definition memN :: "(int, string) memory" where
  "memN = \<lparr>heap = [2 \<mapsto> Cell \<lparr>data = None, next_c = Some 4\<rparr>,
                    3 \<mapsto> Elem \<lparr>key = 7, value_e = None\<rparr>,
                    4 \<mapsto> Cell \<lparr>data = Some 3, next_c = None\<rparr>],
            avail = [5, 6, 7, 8, 9, 10]\<rparr>"

definition scenario_1 :: "((int, string, unit) MyTable \<times> (int, string) memory) option" where
  "scenario_1 = do {
     (r, m1) \<leftarrow> table_create mem0 compare_int;
     t \<leftarrow> r;
     m2 \<leftarrow> table_insert m1 t 1 (Some ''a'');
     Some (t, m2)
   }"

definition scenario_N :: "((int, string, unit) MyTable \<times> (int, string) memory) option" where
  "scenario_N = do {
     (r, m1) \<leftarrow> table_create mem0 compare_int;
     t \<leftarrow> r;
     m2 \<leftarrow> table_insert m1 t 7 None;
     Some (t, m2)
   }"

text \<open>
  Scenario R: the keys are pointers into the caller's storage, where 30, 31 and 32 point to
  three separate copies of the key 3. The comparator compares what the pointers point to.
  The key destructor releases its argument, as \<open>free\<close> does, and the caller's world is the
  list of the keys it was called on. \<open>(31, y)\<close> and \<open>(30, x)\<close> are inserted in this order;
  \<open>memR\<close> and \<open>tableR\<close> are the memory and the struct that result (\<open>scenario_R_eq\<close>).
\<close>

definition key_at :: "addr \<Rightarrow> int" where
  "key_at p = (if p = 30 \<or> p = 31 \<or> p = 32 then 3 else 0)"

definition compare_at :: "addr \<Rightarrow> addr \<Rightarrow> int" where
  "compare_at a b = compare_int (key_at a) (key_at b)"

definition free_key :: "(addr, addr list) KeyFreeFunc" where
  "free_key = \<lparr>act = (\<lambda>k w. w @ [k]), releases = True\<rparr>"

definition memR0 :: "(addr, string) memory" where
  "memR0 = \<lparr>heap = Map.empty, avail = [1, 2, 3, 4, 5, 6, 7, 8, 9, 10]\<rparr>"

definition entry_x :: "addr \<times> addr \<times> (addr, string) TableElement" where
  "entry_x = (6, 5, \<lparr>key = 30, value_e = Some ''x''\<rparr>)"

definition entry_y :: "addr \<times> addr \<times> (addr, string) TableElement" where
  "entry_y = (4, 3, \<lparr>key = 31, value_e = Some ''y''\<rparr>)"

definition tableR :: "(addr, string, addr list) MyTable" where
  "tableR = \<lparr>values_t = \<lparr>head = Some 2, freeFunc = Some free\<rparr>, cf = compare_at,
              keyFree = Some free_key, valueFree = None\<rparr>"

definition memR :: "(addr, string) memory" where
  "memR = \<lparr>heap = [2 \<mapsto> Cell \<lparr>data = None, next_c = Some 6\<rparr>,
                    3 \<mapsto> Elem \<lparr>key = 31, value_e = Some ''y''\<rparr>,
                    4 \<mapsto> Cell \<lparr>data = Some 3, next_c = None\<rparr>,
                    5 \<mapsto> Elem \<lparr>key = 30, value_e = Some ''x''\<rparr>,
                    6 \<mapsto> Cell \<lparr>data = Some 5, next_c = Some 4\<rparr>],
            avail = [7, 8, 9, 10]\<rparr>"

definition scenario_R ::
  "((addr, string, addr list) MyTable \<times> (addr, string) memory) option" where
  "scenario_R = do {
     (r, m1) \<leftarrow> table_create memR0 compare_at;
     t \<leftarrow> r;
     let t = table_setKeyMemHandler t (Some free_key);
     m2 \<leftarrow> table_insert m1 t 31 (Some ''y'');
     m3 \<leftarrow> table_insert m2 t 30 (Some ''x'');
     Some (t, m3)
   }"

section \<open>Lists in memory\<close>

lemma cell_at_Some: "cell_at m p = Some c \<longleftrightarrow> (\<exists>a. p = Some a \<and> heap m a = Some (Cell c))"
  by (auto simp: cell_at_def split: option.splits obj.splits)

lemma elem_at_Some: "elem_at m p = Some e \<longleftrightarrow> (\<exists>a. p = Some a \<and> heap m a = Some (Elem e))"
  by (auto simp: elem_at_def split: option.splits obj.splits)

lemma chain_Cons:
  "chain m p (x # xs) q \<longleftrightarrow>
     (\<exists>c. p = Some (fst x) \<and> heap m (fst x) = Some (Cell c) \<and> data c = Some (fst (snd x)) \<and>
          heap m (fst (snd x)) = Some (Elem (snd (snd x))) \<and> chain m (next_c c) xs q)"
  by (cases x) (auto simp: cell_at_def elem_at_def split: option.splits obj.splits)

lemma chain_frame:
  "\<forall>x \<in> set (cells_of xs) \<union> set (elems_of xs). heap m' x = heap m x \<Longrightarrow>
   chain m' p xs q = chain m p xs q"
proof (induction xs arbitrary: p)
  case Nil
  show ?case by simp
next
  case (Cons x xs)
  have tl: "\<forall>y \<in> set (cells_of xs) \<union> set (elems_of xs). heap m' y = heap m y"
    using Cons.prems by (simp add: cells_of_def elems_of_def)
  have a: "heap m' (fst x) = heap m (fst x)" and d: "heap m' (fst (snd x)) = heap m (fst (snd x))"
    using Cons.prems by (simp_all add: cells_of_def elems_of_def)
  show ?case
    by (simp only: chain_Cons a d Cons.IH [OF tl])
qed

lemma chain_append:
  "chain m p (xs @ ys) q \<longleftrightarrow> (\<exists>r. chain m p xs r \<and> chain m r ys q)"
proof (induction xs arbitrary: p)
  case Nil
  show ?case by simp
next
  case (Cons x xs)
  show ?case
    by (simp only: append_Cons chain_Cons Cons.IH) blast
qed

lemma chain_unique: "chain m p xs None \<Longrightarrow> chain m p ys None \<Longrightarrow> xs = ys"
proof (induction xs arbitrary: p ys)
  case Nil
  then show ?case by (cases ys) (auto simp: chain_Cons)
next
  case (Cons x xs)
  from Cons.prems(1) obtain c where c: "p = Some (fst x)" "heap m (fst x) = Some (Cell c)"
    "data c = Some (fst (snd x))" "heap m (fst (snd x)) = Some (Elem (snd (snd x)))"
    "chain m (next_c c) xs None"
    by (auto simp: chain_Cons)
  from Cons.prems(2) c(1) obtain y ys' where ys: "ys = y # ys'"
    by (cases ys) auto
  from Cons.prems(2) ys c have y: "fst y = fst x" "fst (snd y) = fst (snd x)"
    "snd (snd y) = snd (snd x)" "chain m (next_c c) ys' None"
    by (auto simp: chain_Cons)
  have "x = y" using y by (simp add: prod_eq_iff)
  moreover have "xs = ys'" using Cons.IH [OF c(5) y(4)] .
  ultimately show ?case using ys by simp
qed

lemma chain_objs:
  "chain m p xs q \<Longrightarrow> x \<in> set xs \<Longrightarrow>
   (\<exists>c. heap m (fst x) = Some (Cell c)) \<and> heap m (fst (snd x)) = Some (Elem (snd (snd x)))"
  by (induction xs arbitrary: p) (auto simp: chain_Cons)

lemma chain_cell_not_elem:
  "chain m p xs q \<Longrightarrow> heap m a = Some (Cell c) \<Longrightarrow> a \<notin> set (elems_of xs)"
  by (auto simp: elems_of_def dest: chain_objs)

lemma chain_elem_not_cell:
  "chain m p xs q \<Longrightarrow> heap m a = Some (Elem e) \<Longrightarrow> a \<notin> set (cells_of xs)"
  by (auto simp: cells_of_def dest: chain_objs)

lemma chain_head_notin:
  assumes "heap m a = Some (Cell c)" and "chain m (next_c c) xs None"
  shows "a \<notin> set (cells_of xs)"
proof
  assume "a \<in> set (cells_of xs)"
  then obtain x where x: "x \<in> set xs" "fst x = a"
    by (auto simp: cells_of_def)
  then obtain pre post where xs: "xs = pre @ x # post"
    by (auto simp: in_set_conv_decomp)
  from assms(2) xs obtain r where "chain m r (x # post) None"
    by (auto simp: chain_append)
  then have "chain m (next_c c) post None"
    using assms(1) x(2) by (auto simp: chain_Cons)
  then have "xs = post" using assms(2) chain_unique by blast
  then show False using xs by simp
qed

lemma chain_distinct: "chain m p xs None \<Longrightarrow> distinct (cells_of xs)"
proof (induction xs arbitrary: p)
  case Nil
  show ?case by (simp add: cells_of_def)
next
  case (Cons x xs)
  from Cons.prems obtain c where c: "heap m (fst x) = Some (Cell c)" "chain m (next_c c) xs None"
    by (auto simp: chain_Cons)
  have "fst x \<notin> set (cells_of xs)" using chain_head_notin [OF c] .
  moreover have "distinct (cells_of xs)" using Cons.IH [OF c(2)] .
  ultimately show ?case by (simp add: cells_of_def)
qed

section \<open>The scan of \<open>table_lookup\<close>\<close>

lemma cell_at_None [simp]: "cell_at m None = None"
  by (simp add: cell_at_def)

lemma lookup_loop_end:
  "cell_at m p = Some c \<Longrightarrow> next_c c = None \<Longrightarrow> lookup_loop m t k p = Some (None, m)"
  by (subst lookup_loop.simps) (simp add: dlist_isEnd_def)

lemma lookup_loop_step:
  assumes "cell_at m p = Some c" and "cell_at m (next_c c) = Some n"
    and "elem_at m (data n) = Some el"
  shows "lookup_loop m t k p =
    (if cf t (key el) k = 0 then move_to_front m t p (data n) else lookup_loop m t k (next_c c))"
proof -
  obtain a where "next_c c = Some a" using assms(2) by (cases "next_c c") auto
  then show ?thesis
    using assms
    by (subst lookup_loop.simps) (simp add: dlist_isEnd_def dlist_inspect_def dlist_next_def)
qed

lemma lookup_loop_miss:
  "cell_at m p = Some c \<Longrightarrow> chain m (next_c c) xs None \<Longrightarrow>
   \<forall>x \<in> set xs. cf t (key (snd (snd x))) k \<noteq> 0 \<Longrightarrow>
   lookup_loop m t k p = Some (None, m)"
proof (induction xs arbitrary: p c)
  case Nil
  then show ?case by (simp add: lookup_loop_end)
next
  case (Cons x xs)
  from Cons.prems(2) obtain n where n: "next_c c = Some (fst x)" "cell_at m (next_c c) = Some n"
    "data n = Some (fst (snd x))" "elem_at m (data n) = Some (snd (snd x))"
    "chain m (next_c n) xs None"
    by (auto simp: chain_Cons cell_at_Some elem_at_Some)
  have "lookup_loop m t k p = lookup_loop m t k (next_c c)"
    using lookup_loop_step [OF Cons.prems(1) n(2) n(4), of t k] Cons.prems(3) by simp
  also have "\<dots> = Some (None, m)"
    using Cons.IH [OF n(2) n(5)] Cons.prems(3) by simp
  finally show ?case .
qed

lemma lookup_loop_scan:
  "cell_at m p = Some c \<Longrightarrow> chain m (next_c c) (pre @ x # post) q \<Longrightarrow>
   \<forall>y \<in> set pre. cf t (key (snd (snd y))) k \<noteq> 0 \<Longrightarrow>
   cf t (key (snd (snd x))) k = 0 \<Longrightarrow>
   lookup_loop m t k p =
     move_to_front m t (last (p # map (\<lambda>y. Some (fst y)) pre)) (Some (fst (snd x)))"
proof (induction pre arbitrary: p c)
  case Nil
  from Nil.prems(2) obtain n where n: "cell_at m (next_c c) = Some n"
    "data n = Some (fst (snd x))" "elem_at m (data n) = Some (snd (snd x))"
    by (auto simp: chain_Cons cell_at_Some elem_at_Some)
  show ?case
    using lookup_loop_step [OF Nil.prems(1) n(1) n(3), of t k] Nil.prems(4) n(2) by simp
next
  case (Cons y pre)
  from Cons.prems(2) obtain n where n: "next_c c = Some (fst y)" "cell_at m (next_c c) = Some n"
    "data n = Some (fst (snd y))" "elem_at m (data n) = Some (snd (snd y))"
    "chain m (next_c n) (pre @ x # post) q"
    by (auto simp: chain_Cons cell_at_Some elem_at_Some)
  have "lookup_loop m t k p = lookup_loop m t k (next_c c)"
    using lookup_loop_step [OF Cons.prems(1) n(2) n(4), of t k] Cons.prems(3) by simp
  also have "\<dots> = move_to_front m t (last (next_c c # map (\<lambda>y. Some (fst y)) pre)) (Some (fst (snd x)))"
    using Cons.IH [OF n(2) n(5)] Cons.prems(3,4) by simp
  finally show ?case using n(1) by simp
qed

section \<open>The relinking of \<open>table_lookup\<close>\<close>

lemma elem_at_None [simp]: "elem_at m None = None"
  by (simp add: elem_at_def)

lemma cell_at_heap: "heap m a = Some (Cell c) \<Longrightarrow> cell_at m (Some a) = Some c"
  by (simp add: cell_at_def)

lemma move_to_front_first:
  assumes hd: "head (values_t t) = Some h" and hc: "heap m h = Some (Cell hc)"
    and ch: "chain m (next_c hc) (x # post) None"
  shows "\<exists>m' n. move_to_front m t (Some h) (Some (fst (snd x))) = Some (value_e (snd (snd x)), m') \<and>
           heap m (fst x) = Some (Cell n) \<and>
           heap m' h = Some (Cell (hc\<lparr>next_c := next_c n\<rparr>)) \<and>
           heap m' (fst x) = Some (Cell (n\<lparr>next_c := Some (fst x)\<rparr>)) \<and>
           chain m' (next_c n) post None \<and> avail m' = avail m"
proof -
  from ch obtain n where n: "next_c hc = Some (fst x)" "heap m (fst x) = Some (Cell n)"
    "data n = Some (fst (snd x))" "heap m (fst (snd x)) = Some (Elem (snd (snd x)))"
    "chain m (next_c n) post None"
    by (auto simp: chain_Cons)
  have ne: "h \<noteq> fst x"
    using chain_head_notin [OF hc ch] by (auto simp: cells_of_def)
  have d1: "fst (snd x) \<noteq> h" "fst (snd x) \<noteq> fst x"
    using hc n(2,4) by auto
  define m' where "m' = m\<lparr>heap := (heap m)(h \<mapsto> Cell (hc\<lparr>next_c := Some (fst x)\<rparr>),
      fst x \<mapsto> Cell (n\<lparr>next_c := Some (fst x)\<rparr>), h \<mapsto> Cell (hc\<lparr>next_c := next_c n\<rparr>))\<rparr>"
  have run: "move_to_front m t (Some h) (Some (fst (snd x))) = Some (value_e (snd (snd x)), m')"
    using hd hc n ne d1
    by (simp add: move_to_front_def cell_at_def elem_at_def set_next_def m'_def)
  have nh: "h \<notin> set (cells_of post)" "h \<notin> set (elems_of post)"
    using chain_head_notin [OF hc ch] chain_cell_not_elem [OF n(5) hc]
    by (auto simp: cells_of_def)
  have na: "fst x \<notin> set (cells_of post)" "fst x \<notin> set (elems_of post)"
    using chain_head_notin [OF n(2) n(5)] chain_cell_not_elem [OF n(5) n(2)] by auto
  have "chain m' (next_c n) post None = chain m (next_c n) post None"
    by (rule chain_frame) (use nh na in \<open>auto simp: m'_def\<close>)
  then have "chain m' (next_c n) post None" using n(5) by simp
  then show ?thesis
    using run n(2) ne by (auto simp: m'_def)
qed

lemma move_to_front_later:
  assumes hd: "head (values_t t) = Some h" and hc: "heap m h = Some (Cell hc)"
    and ch: "chain m (next_c hc) (pre @ y # x # post) None"
  shows "\<exists>m'. move_to_front m t (Some (fst y)) (Some (fst (snd x))) = Some (value_e (snd (snd x)), m') \<and>
           heap m' h = Some (Cell (hc\<lparr>next_c := Some (fst x)\<rparr>)) \<and>
           chain m' (Some (fst x)) (x # pre @ y # post) None \<and> avail m' = avail m"
proof -
  let ?xs = "pre @ y # x # post"
  from ch obtain r where r: "chain m (next_c hc) pre r" "chain m r (y # x # post) None"
    by (auto simp: chain_append)
  from r(2) obtain c where c: "r = Some (fst y)" "heap m (fst y) = Some (Cell c)"
    "data c = Some (fst (snd y))" "heap m (fst (snd y)) = Some (Elem (snd (snd y)))"
    "chain m (next_c c) (x # post) None"
    by (auto simp: chain_Cons)
  from c(5) obtain n where n: "next_c c = Some (fst x)" "heap m (fst x) = Some (Cell n)"
    "data n = Some (fst (snd x))" "heap m (fst (snd x)) = Some (Elem (snd (snd x)))"
    "chain m (next_c n) post None"
    by (auto simp: chain_Cons)
  have dist: "distinct (cells_of ?xs)" using chain_distinct [OF ch] .
  have hn: "h \<notin> set (cells_of ?xs)" using chain_head_notin [OF hc ch] .
  have ne: "h \<noteq> fst y" "h \<noteq> fst x" "fst y \<noteq> fst x"
    using dist hn by (auto simp: cells_of_def)
  have el: "h \<notin> set (elems_of ?xs)" "fst y \<notin> set (elems_of ?xs)" "fst x \<notin> set (elems_of ?xs)"
    using chain_cell_not_elem [OF ch hc] chain_cell_not_elem [OF ch c(2)]
      chain_cell_not_elem [OF ch n(2)] by auto
  define m' where "m' = m\<lparr>heap := (heap m)(h \<mapsto> Cell (hc\<lparr>next_c := Some (fst x)\<rparr>),
      fst x \<mapsto> Cell (n\<lparr>next_c := next_c hc\<rparr>), fst y \<mapsto> Cell (c\<lparr>next_c := next_c n\<rparr>))\<rparr>"
  have d1: "fst (snd x) \<noteq> h" "fst (snd x) \<noteq> fst x" "fst (snd x) \<noteq> fst y"
    using hc n(2,4) c(2) by auto
  have d2: "fst (snd y) \<noteq> h" "fst (snd y) \<noteq> fst x" "fst (snd y) \<noteq> fst y"
    using hc n(2) c(2,4) by auto
  have run: "move_to_front m t (Some (fst y)) (Some (fst (snd x))) = Some (value_e (snd (snd x)), m')"
    using hd hc c n ne d1
    by (simp add: move_to_front_def cell_at_def elem_at_def set_next_def m'_def)
  have fr: "z \<noteq> h \<Longrightarrow> z \<noteq> fst x \<Longrightarrow> z \<noteq> fst y \<Longrightarrow> heap m' z = heap m z" for z
    by (simp add: m'_def)
  have npre: "h \<notin> set (cells_of pre) \<union> set (elems_of pre)"
    "fst x \<notin> set (cells_of pre) \<union> set (elems_of pre)"
    "fst y \<notin> set (cells_of pre) \<union> set (elems_of pre)"
    using dist hn el by (auto simp: cells_of_def elems_of_def)
  have npost: "h \<notin> set (cells_of post) \<union> set (elems_of post)"
    "fst x \<notin> set (cells_of post) \<union> set (elems_of post)"
    "fst y \<notin> set (cells_of post) \<union> set (elems_of post)"
    using dist hn el by (auto simp: cells_of_def elems_of_def)
  have "chain m' (next_c hc) pre r = chain m (next_c hc) pre r"
    by (rule chain_frame) (metis fr npre)
  then have p1: "chain m' (next_c hc) pre (Some (fst y))" using r(1) c(1) by simp
  have "chain m' (next_c n) post None = chain m (next_c n) post None"
    by (rule chain_frame) (metis fr npost)
  then have p2: "chain m' (next_c n) post None" using n(5) by simp
  have hy: "heap m' (fst y) = Some (Cell (c\<lparr>next_c := next_c n\<rparr>))"
    by (simp add: m'_def)
  have hx: "heap m' (fst x) = Some (Cell (n\<lparr>next_c := next_c hc\<rparr>))"
    using ne by (simp add: m'_def)
  have ey: "heap m' (fst (snd y)) = Some (Elem (snd (snd y)))"
    using fr [OF d2] c(4) by simp
  have ex: "heap m' (fst (snd x)) = Some (Elem (snd (snd x)))"
    using fr [OF d1] n(4) by simp
  have "chain m' (Some (fst y)) (y # post) None"
    using hy ey c(3) p2 by (simp add: chain_Cons)
  with p1 have "chain m' (next_c hc) (pre @ y # post) None"
    by (auto simp: chain_append)
  then have "chain m' (Some (fst x)) (x # pre @ y # post) None"
    using hx ex n(3) by (simp add: chain_Cons)
  moreover have "heap m' h = Some (Cell (hc\<lparr>next_c := Some (fst x)\<rparr>))"
    using ne by (simp add: m'_def)
  ultimately show ?thesis using run by (auto simp: m'_def)
qed

section \<open>Operations on a table\<close>

lemma table_inv_iff:
  "table_inv m t xs \<longleftrightarrow>
     (\<exists>h hc. head (values_t t) = Some h \<and> heap m h = Some (Cell hc) \<and>
        chain m (next_c hc) xs None \<and> distinct (elems_of xs) \<and>
        freeFunc (values_t t) = Some free)"
  by (cases "head (values_t t)")
    (auto simp: table_inv_def cell_at_def split: option.splits obj.splits)

lemma chain_live:
  "chain m p xs q \<Longrightarrow> a \<in> set (cells_of xs) \<union> set (elems_of xs) \<Longrightarrow> heap m a \<noteq> None"
  by (induction xs arbitrary: p) (auto simp: chain_Cons cells_of_def elems_of_def)

lemma lookup_first:
  assumes inv: "table_inv m t (x # post)" and hit: "cf t (key (snd (snd x))) k = 0"
  shows "\<exists>m'. table_lookup m t k = Some (value_e (snd (snd x)), m') \<and> table_inv m' t post \<and>
           avail m' = avail m"
proof -
  from inv obtain h hc where h: "head (values_t t) = Some h" "heap m h = Some (Cell hc)"
    "chain m (next_c hc) (x # post) None" "distinct (elems_of (x # post))"
    "freeFunc (values_t t) = Some free"
    by (auto simp: table_inv_iff)
  have "lookup_loop m t k (Some h) = move_to_front m t (Some h) (Some (fst (snd x)))"
    using lookup_loop_scan [OF cell_at_heap [OF h(2)], of "[]" x post None t k] h(3) hit
    by simp
  moreover from move_to_front_first [OF h(1,2,3)]
  obtain m' and n :: cell where m': "move_to_front m t (Some h) (Some (fst (snd x))) =
      Some (value_e (snd (snd x)), m')" "heap m' h = Some (Cell (hc\<lparr>next_c := next_c n\<rparr>))"
      "chain m' (next_c n) post None" "avail m' = avail m"
    by auto
  ultimately have "table_lookup m t k = Some (value_e (snd (snd x)), m')"
    using h(1) by (simp add: table_lookup_def dlist_first_def)
  moreover have "table_inv m' t post"
    using h(1,4,5) m'(2,3) by (auto simp: table_inv_iff elems_of_def)
  ultimately show ?thesis using m'(4) by blast
qed

lemma lookup_later:
  assumes inv: "table_inv m t (pre @ y # x # post)"
    and miss: "\<forall>z \<in> set (pre @ [y]). cf t (key (snd (snd z))) k \<noteq> 0"
    and hit: "cf t (key (snd (snd x))) k = 0"
  shows "\<exists>m'. table_lookup m t k = Some (value_e (snd (snd x)), m') \<and>
           table_inv m' t (x # pre @ y # post) \<and> avail m' = avail m"
proof -
  from inv obtain h hc where h: "head (values_t t) = Some h" "heap m h = Some (Cell hc)"
    "chain m (next_c hc) (pre @ y # x # post) None" "distinct (elems_of (pre @ y # x # post))"
    "freeFunc (values_t t) = Some free"
    by (auto simp: table_inv_iff)
  have "chain m (next_c hc) ((pre @ [y]) @ x # post) None" using h(3) by simp
  then have "lookup_loop m t k (Some h) =
      move_to_front m t (last (Some h # map (\<lambda>y. Some (fst y)) (pre @ [y]))) (Some (fst (snd x)))"
    using miss hit by (rule lookup_loop_scan [OF cell_at_heap [OF h(2)]])
  then have "lookup_loop m t k (Some h) = move_to_front m t (Some (fst y)) (Some (fst (snd x)))"
    by simp
  moreover from move_to_front_later [OF h(1,2,3)]
  obtain m' where m': "move_to_front m t (Some (fst y)) (Some (fst (snd x))) =
      Some (value_e (snd (snd x)), m')" "heap m' h = Some (Cell (hc\<lparr>next_c := Some (fst x)\<rparr>))"
      "chain m' (Some (fst x)) (x # pre @ y # post) None" "avail m' = avail m"
    by auto
  ultimately have "table_lookup m t k = Some (value_e (snd (snd x)), m')"
    using h(1) by (simp add: table_lookup_def dlist_first_def)
  moreover have "table_inv m' t (x # pre @ y # post)"
    using h(1,4,5) m'(2,3) by (auto simp: table_inv_iff elems_of_def)
  ultimately show ?thesis using m'(4) by blast
qed

lemma lookup_miss:
  assumes inv: "table_inv m t xs" and miss: "\<forall>z \<in> set xs. cf t (key (snd (snd z))) k \<noteq> 0"
  shows "table_lookup m t k = Some (None, m)"
proof -
  from inv obtain h hc where h: "head (values_t t) = Some h" "heap m h = Some (Cell hc)"
    "chain m (next_c hc) xs None"
    by (auto simp: table_inv_iff)
  show ?thesis
    using lookup_loop_miss [OF cell_at_heap [OF h(2)] h(3) miss] h(1)
    by (simp add: table_lookup_def dlist_first_def)
qed

lemma isEmpty_inv: "table_inv m t xs \<Longrightarrow> table_isEmpty m t = Some (xs = [])"
  by (cases xs)
    (auto simp: table_inv_iff table_isEmpty_def dlist_isEmpty_def cell_at_def chain_Cons)

lemma insert_inv:
  assumes inv: "table_inv m t xs" and ok: "mem_ok m" and av: "avail m = e # n # rest"
  shows "\<exists>m'. table_insert m t k v = Some m' \<and>
           table_inv m' t ((n, e, \<lparr>key = k, value_e = v\<rparr>) # xs) \<and>
           mem_ok m' \<and> avail m' = rest"
proof -
  from inv obtain h hc where h: "head (values_t t) = Some h" "heap m h = Some (Cell hc)"
    "chain m (next_c hc) xs None" "distinct (elems_of xs)" "freeFunc (values_t t) = Some free"
    by (auto simp: table_inv_iff)
  have fresh: "heap m e = None" "heap m n = None" "e \<noteq> n" "e \<notin> set rest" "n \<notin> set rest"
    "distinct rest" "list_all (\<lambda>a. heap m a = None) rest"
    using ok av by (auto simp: mem_ok_def)
  have ne: "e \<noteq> h" "n \<noteq> h" using fresh h(2) by auto
  have out: "e \<notin> set (cells_of xs) \<union> set (elems_of xs)"
    "n \<notin> set (cells_of xs) \<union> set (elems_of xs)" "h \<notin> set (cells_of xs) \<union> set (elems_of xs)"
    using chain_live [OF h(3)] fresh(1,2) chain_head_notin [OF h(2,3)]
      chain_cell_not_elem [OF h(3) h(2)]
    by blast+
  define m' where "m' = m\<lparr>avail := rest,
    heap := (heap m)(e \<mapsto> Elem \<lparr>key = k, value_e = v\<rparr>,
      n \<mapsto> Cell \<lparr>data = Some e, next_c = next_c hc\<rparr>, h \<mapsto> Cell (hc\<lparr>next_c := Some n\<rparr>))\<rparr>"
  have run: "table_insert m t k v = Some m'"
    using h(1,2) av ne fresh(3)
    by (simp add: table_insert_def malloc_def store_def dlist_insert_def dlist_first_def
        cell_at_def set_next_def m'_def)
  have fr: "z \<noteq> h \<Longrightarrow> z \<noteq> e \<Longrightarrow> z \<noteq> n \<Longrightarrow> heap m' z = heap m z" for z
    by (simp add: m'_def)
  have "chain m' (next_c hc) xs None = chain m (next_c hc) xs None"
    by (rule chain_frame) (metis fr out)
  then have "chain m' (next_c hc) xs None" using h(3) by simp
  then have "chain m' (Some n) ((n, e, \<lparr>key = k, value_e = v\<rparr>) # xs) None"
    using ne fresh(3) by (simp add: cell_at_def elem_at_def m'_def)
  moreover have "heap m' h = Some (Cell (hc\<lparr>next_c := Some n\<rparr>))"
    by (simp add: m'_def)
  moreover have "distinct (elems_of ((n, e, \<lparr>key = k, value_e = v\<rparr>) # xs))"
    using h(4) out(1) by (simp add: elems_of_def)
  ultimately have "table_inv m' t ((n, e, \<lparr>key = k, value_e = v\<rparr>) # xs)"
    using h(1,5) by (auto simp: table_inv_iff)
  moreover have "mem_ok m'"
    using fresh ne h(2) by (auto simp: mem_ok_def m'_def list_all_iff)
  ultimately show ?thesis using run by (auto simp: m'_def)
qed

lemma create_inv:
  assumes ok: "mem_ok m" and av: "avail m = a # h # rest"
  shows "\<exists>t m'. table_create m c = Some (Some t, m') \<and> table_inv m' t [] \<and>
           keyFree t = None \<and> valueFree t = None \<and> cf t = c \<and> mem_ok m' \<and> avail m' = rest"
proof -
  have fresh: "a \<noteq> h" "h \<notin> set rest" "distinct rest" "list_all (\<lambda>a. heap m a = None) rest"
    using ok av by (auto simp: mem_ok_def)
  show ?thesis
    using av fresh
    by (auto simp: table_create_def malloc_def dlist_empty_def store_def dlist_setMemHandler_def
        table_inv_def cell_at_def elems_of_def mem_ok_def list_all_iff)
qed

text \<open>\<open>table_create\<close> tests the result of its \<open>calloc\<close>.\<close>

lemma create_no_memory: "avail m = [] \<Longrightarrow> table_create m c = Some (None, m)"
  by (simp add: table_create_def malloc_def)

section \<open>The scan of \<open>table_remove\<close>\<close>

lemma remove_loop_end:
  "cell_at m p = Some c \<Longrightarrow> next_c c = None \<Longrightarrow> remove_loop m w dead t k p = Some (m, w)"
  by (subst remove_loop.simps) (simp add: dlist_isEnd_def)

lemma remove_loop_step:
  assumes "cell_at m p = Some c" and "cell_at m (next_c c) = Some n"
    and "elem_at m (data n) = Some el"
  shows "remove_loop m w dead t k p =
    (if key el \<in> set dead \<or> k \<in> set dead then None
     else if cf t (key el) k = 0
     then dlist_remove m (values_t t) p \<bind>
       (\<lambda>(p', m'). remove_loop m' (call_valueFree t (value_e el) (call_keyFree t (key el) w))
          (released t (key el) dead) t k p')
     else remove_loop m w dead t k (next_c c))"
proof -
  obtain a where "next_c c = Some a" using assms(2) by (cases "next_c c") auto
  then show ?thesis
    using assms
    by (subst remove_loop.simps)
      (simp add: dlist_isEnd_def dlist_inspect_def dlist_next_def compare_keys_def Let_def)
qed

lemma released_eq: "released t k dead = (if key_released t then k # dead else dead)"
  by (simp add: released_def key_released_def split: option.splits)

lemma dlist_remove_heap:
  assumes "heap m pa = Some (Cell c)" and "next_c c = Some a" and "heap m a = Some (Cell n)"
    and "data n = Some d" and "heap m d = Some (Elem e)" and "freeFunc l = Some free"
    and "pa \<noteq> a"
  shows "dlist_remove m l (Some pa) =
    Some (Some pa, m\<lparr>heap := (heap m)(pa \<mapsto> Cell (c\<lparr>next_c := next_c n\<rparr>), d := None, a := None),
                      avail := avail m @ [d, a]\<rparr>)"
proof -
  have "d \<noteq> pa" "d \<noteq> a" using assms by auto
  then show ?thesis
    using assms
    by (simp add: dlist_remove_def cell_at_def set_next_def free_def Let_def)
qed

text \<open>
  The scan of \<open>table_remove\<close> on a list none of whose keys is released yet. Where the key
  destructor releases its argument, the search key is not one of the stored key pointers and
  no two entries share a key pointer.
\<close>

lemma remove_loop_inv:
  assumes "heap m pa = Some (Cell c)" and "chain m (next_c c) xs None"
    and "distinct (elems_of xs)" and "freeFunc (values_t t) = Some free"
    and "k \<notin> set dead" and "set (keys_of xs) \<inter> set dead = {}"
    and "key_released t \<longrightarrow> k \<notin> set (keys_of xs) \<and> distinct (keys_of xs)"
  shows "\<exists>m' c'. remove_loop m w dead t k (Some pa) =
             Some (m', foldl (destroy t) w (filter (matches t k) xs)) \<and>
           heap m' pa = Some (Cell c') \<and> data c' = data c \<and>
           chain m' (next_c c') (filter (\<lambda>x. \<not> matches t k x) xs) None \<and>
           (\<forall>z. z \<noteq> pa \<and> z \<notin> set (cells_of xs) \<union> set (elems_of xs) \<longrightarrow> heap m' z = heap m z) \<and>
           (filter (matches t k) xs = [] \<longrightarrow> m' = m)"
  using assms
proof (induction xs arbitrary: m w pa c dead)
  case Nil
  then show ?case
    by (simp add: remove_loop_end cell_at_heap)
next
  case (Cons x xs)
  from Cons.prems(2) obtain n where n: "next_c c = Some (fst x)" "heap m (fst x) = Some (Cell n)"
    "data n = Some (fst (snd x))" "heap m (fst (snd x)) = Some (Elem (snd (snd x)))"
    "chain m (next_c n) xs None"
    by (auto simp: chain_Cons)
  have ne: "pa \<noteq> fst x"
    using chain_head_notin [OF Cons.prems(1,2)] by (simp add: cells_of_def)
  have dx: "distinct (elems_of xs)" "fst (snd x) \<notin> set (elems_of xs)"
    using Cons.prems(3) by (simp_all add: elems_of_def)
  have out_pa: "pa \<notin> set (cells_of xs) \<union> set (elems_of xs)"
    using chain_head_notin [OF Cons.prems(1,2)] chain_cell_not_elem [OF n(5) Cons.prems(1)]
    by (simp add: cells_of_def)
  have out_a: "fst x \<notin> set (cells_of xs) \<union> set (elems_of xs)"
    using chain_head_notin [OF n(2,5)] chain_cell_not_elem [OF n(5) n(2)] by simp
  have out_d: "fst (snd x) \<notin> set (cells_of xs) \<union> set (elems_of xs)"
    using chain_elem_not_cell [OF n(5) n(4)] dx(2) by simp
  have dne: "fst (snd x) \<noteq> pa" "fst (snd x) \<noteq> fst x"
    using Cons.prems(1) n(2,4) by auto
  have live: "key (snd (snd x)) \<notin> set dead" "set (keys_of xs) \<inter> set dead = {}"
    using Cons.prems(6) by (auto simp: keys_of_def)
  have rel: "key_released t \<longrightarrow> k \<notin> set (keys_of xs) \<and> distinct (keys_of xs)"
    using Cons.prems(7) by (simp add: keys_of_def)
  have step: "remove_loop m w dead t k (Some pa) =
    (if cf t (key (snd (snd x))) k = 0
     then dlist_remove m (values_t t) (Some pa) \<bind>
       (\<lambda>(p', m'). remove_loop m' (destroy t w x) (released t (key (snd (snd x))) dead) t k p')
     else remove_loop m w dead t k (Some (fst x)))"
    using remove_loop_step [of m "Some pa" c n "snd (snd x)" w dead t k] Cons.prems(1,5) n live(1)
    by (simp add: cell_at_def elem_at_def destroy_def)
  show ?case
  proof (cases "matches t k x")
    case True
    define m1 where "m1 = m\<lparr>heap := (heap m)(pa \<mapsto> Cell (c\<lparr>next_c := next_c n\<rparr>),
        fst (snd x) := None, fst x := None), avail := avail m @ [fst (snd x), fst x]\<rparr>"
    define dead1 where "dead1 = released t (key (snd (snd x))) dead"
    have rm: "dlist_remove m (values_t t) (Some pa) = Some (Some pa, m1)"
      unfolding m1_def
      by (rule dlist_remove_heap [OF Cons.prems(1) n(1) n(2) n(3) n(4) Cons.prems(4) ne])
    have fr1: "z \<noteq> pa \<Longrightarrow> z \<noteq> fst x \<Longrightarrow> z \<noteq> fst (snd x) \<Longrightarrow> heap m1 z = heap m z" for z
      by (simp add: m1_def)
    have h1: "heap m1 pa = Some (Cell (c\<lparr>next_c := next_c n\<rparr>))"
      using ne dne by (simp add: m1_def)
    have "chain m1 (next_c n) xs None = chain m (next_c n) xs None"
      by (rule chain_frame) (metis fr1 out_pa out_a out_d)
    then have c1: "chain m1 (next_c (c\<lparr>next_c := next_c n\<rparr>)) xs None"
      using n(5) by simp
    have k1: "k \<notin> set dead1"
      using Cons.prems(5,7) by (auto simp: dead1_def released_eq keys_of_def)
    have l1: "set (keys_of xs) \<inter> set dead1 = {}"
      using live(2) Cons.prems(7) by (auto simp: dead1_def released_eq keys_of_def)
    from Cons.IH [OF h1 c1 dx(1) Cons.prems(4) k1 l1 rel, of "destroy t w x"]
    obtain m' and c' :: cell where ih:
      "remove_loop m1 (destroy t w x) dead1 t k (Some pa) =
         Some (m', foldl (destroy t) (destroy t w x) (filter (matches t k) xs))"
      "heap m' pa = Some (Cell c')" "data c' = data c"
      "chain m' (next_c c') (filter (\<lambda>x. \<not> matches t k x) xs) None"
      "\<forall>z. z \<noteq> pa \<and> z \<notin> set (cells_of xs) \<union> set (elems_of xs) \<longrightarrow> heap m' z = heap m1 z"
      by auto
    have "remove_loop m w dead t k (Some pa) =
        Some (m', foldl (destroy t) w (filter (matches t k) (x # xs)))"
      using step True rm ih(1) by (simp add: matches_def dead1_def)
    moreover have "\<forall>z. z \<noteq> pa \<and> z \<notin> set (cells_of (x # xs)) \<union> set (elems_of (x # xs)) \<longrightarrow>
        heap m' z = heap m z"
      using ih(5) fr1 by (auto simp: cells_of_def elems_of_def)
    ultimately show ?thesis
      using True ih(2,3,4) by auto
  next
    case False
    from Cons.IH [OF n(2) n(5) dx(1) Cons.prems(4,5) live(2) rel, of w]
    obtain m' and c' :: cell where ih:
      "remove_loop m w dead t k (Some (fst x)) =
         Some (m', foldl (destroy t) w (filter (matches t k) xs))"
      "heap m' (fst x) = Some (Cell c')" "data c' = data n"
      "chain m' (next_c c') (filter (\<lambda>x. \<not> matches t k x) xs) None"
      "\<forall>z. z \<noteq> fst x \<and> z \<notin> set (cells_of xs) \<union> set (elems_of xs) \<longrightarrow> heap m' z = heap m z"
      "filter (matches t k) xs = [] \<longrightarrow> m' = m"
      by auto
    have "remove_loop m w dead t k (Some pa) =
        Some (m', foldl (destroy t) w (filter (matches t k) (x # xs)))"
      using step False ih(1) by (simp add: matches_def)
    moreover have "heap m' pa = Some (Cell c)"
      using ih(5) ne out_pa Cons.prems(1) by auto
    moreover have "heap m' (fst (snd x)) = Some (Elem (snd (snd x)))"
      using ih(5) dne(2) out_d n(4) by auto
    then have "chain m' (next_c c) (filter (\<lambda>x. \<not> matches t k x) (x # xs)) None"
      using False n(1,3) ih(2,3,4) by (simp add: chain_Cons)
    moreover have "\<forall>z. z \<noteq> pa \<and> z \<notin> set (cells_of (x # xs)) \<union> set (elems_of (x # xs)) \<longrightarrow>
        heap m' z = heap m z"
      using ih(5) by (auto simp: cells_of_def elems_of_def)
    ultimately show ?thesis
      using False ih(6) by auto
  qed
qed

section \<open>The scenarios in memory\<close>

lemma scenario_A_eq: "scenario_A = Some (tableA, memA)"
  by (simp add: scenario_A_def table_create_def table_insert_def malloc_def mem0_def
      dlist_empty_def store_def dlist_setMemHandler_def dlist_insert_def dlist_first_def
      cell_at_def set_next_def tableA_def memA_def fun_eq_iff)

lemma table_inv_A: "table_inv memA tableA [entry_c, entry_b, entry_a]"
  by (simp add: table_inv_def tableA_def memA_def entry_a_def entry_b_def entry_c_def
      cell_at_def elem_at_def elems_of_def)

lemma mem_ok_A: "mem_ok memA"
  by (simp add: mem_ok_def memA_def)

lemma table_inv_1: "table_inv mem1 tableA [entry_a]"
  by (simp add: table_inv_def tableA_def mem1_def entry_a_def cell_at_def elem_at_def
      elems_of_def)

lemma matches_A [simp]:
  "matches tableA k entry_a = (k = 1)" "matches tableA k entry_b = (k = 2)"
  "matches tableA k entry_c = (k = 3)"
  by (auto simp: matches_def tableA_def compare_int_def entry_a_def entry_b_def entry_c_def)

lemma entries_A_distinct [simp]:
  "entry_a \<noteq> entry_b" "entry_a \<noteq> entry_c" "entry_b \<noteq> entry_c"
  "entry_b \<noteq> entry_a" "entry_c \<noteq> entry_a" "entry_c \<noteq> entry_b"
  by (simp_all add: entry_a_def entry_b_def entry_c_def)

section \<open>The scans of \<open>table_free\<close>, and the operations as a whole\<close>

lemma table_inv_unique: "table_inv m t xs \<Longrightarrow> table_inv m t ys \<Longrightarrow> xs = ys"
  by (auto simp: table_inv_iff dest: chain_unique)

lemma free_loop_end:
  "cell_at m p = Some c \<Longrightarrow> next_c c = None \<Longrightarrow> free_loop m w t p = Some (m, w)"
  by (subst free_loop.simps) (simp add: dlist_isEnd_def)

lemma free_loop_step:
  assumes "cell_at m p = Some c" and "cell_at m (next_c c) = Some n"
    and "elem_at m (data n) = Some el"
  shows "free_loop m w t p =
    dlist_remove m (values_t t) p \<bind>
       (\<lambda>(p', m'). free_loop m' (call_valueFree t (value_e el) (call_keyFree t (key el) w)) t p')"
proof -
  obtain a where "next_c c = Some a" using assms(2) by (cases "next_c c") auto
  then show ?thesis
    using assms
    by (subst free_loop.simps) (simp add: dlist_isEnd_def dlist_inspect_def Let_def)
qed

lemma free_loop_inv:
  assumes "heap m pa = Some (Cell c)" and "chain m (next_c c) xs None"
    and "distinct (elems_of xs)" and "freeFunc (values_t t) = Some free"
  shows "\<exists>m' c'. free_loop m w t (Some pa) = Some (m', foldl (destroy t) w xs) \<and>
           heap m' pa = Some (Cell c') \<and> next_c c' = None"
  using assms
proof (induction xs arbitrary: m w c)
  case Nil
  then show ?case
    by (simp add: free_loop_end cell_at_heap)
next
  case (Cons x xs)
  from Cons.prems(2) obtain n where n: "next_c c = Some (fst x)" "heap m (fst x) = Some (Cell n)"
    "data n = Some (fst (snd x))" "heap m (fst (snd x)) = Some (Elem (snd (snd x)))"
    "chain m (next_c n) xs None"
    by (auto simp: chain_Cons)
  have ne: "pa \<noteq> fst x"
    using chain_head_notin [OF Cons.prems(1,2)] by (simp add: cells_of_def)
  have dx: "distinct (elems_of xs)" "fst (snd x) \<notin> set (elems_of xs)"
    using Cons.prems(3) by (simp_all add: elems_of_def)
  have out_pa: "pa \<notin> set (cells_of xs) \<union> set (elems_of xs)"
    using chain_head_notin [OF Cons.prems(1,2)] chain_cell_not_elem [OF n(5) Cons.prems(1)]
    by (simp add: cells_of_def)
  have out_a: "fst x \<notin> set (cells_of xs) \<union> set (elems_of xs)"
    using chain_head_notin [OF n(2,5)] chain_cell_not_elem [OF n(5) n(2)] by simp
  have out_d: "fst (snd x) \<notin> set (cells_of xs) \<union> set (elems_of xs)"
    using chain_elem_not_cell [OF n(5) n(4)] dx(2) by simp
  have dne: "fst (snd x) \<noteq> pa" "fst (snd x) \<noteq> fst x"
    using Cons.prems(1) n(2,4) by auto
  have step: "free_loop m w t (Some pa) =
     dlist_remove m (values_t t) (Some pa) \<bind> (\<lambda>(p', m'). free_loop m' (destroy t w x) t p')"
    using free_loop_step [of m "Some pa" c n "snd (snd x)" w t] Cons.prems(1) n
    by (simp add: cell_at_def elem_at_def destroy_def)
  define m1 where "m1 = m\<lparr>heap := (heap m)(pa \<mapsto> Cell (c\<lparr>next_c := next_c n\<rparr>),
      fst (snd x) := None, fst x := None), avail := avail m @ [fst (snd x), fst x]\<rparr>"
  have rm: "dlist_remove m (values_t t) (Some pa) = Some (Some pa, m1)"
    unfolding m1_def
    by (rule dlist_remove_heap [OF Cons.prems(1) n(1) n(2) n(3) n(4) Cons.prems(4) ne])
  have fr1: "z \<noteq> pa \<Longrightarrow> z \<noteq> fst x \<Longrightarrow> z \<noteq> fst (snd x) \<Longrightarrow> heap m1 z = heap m z" for z
    by (simp add: m1_def)
  have h1: "heap m1 pa = Some (Cell (c\<lparr>next_c := next_c n\<rparr>))"
    using ne dne by (simp add: m1_def)
  have "chain m1 (next_c n) xs None = chain m (next_c n) xs None"
    by (rule chain_frame) (metis fr1 out_pa out_a out_d)
  then have c1: "chain m1 (next_c (c\<lparr>next_c := next_c n\<rparr>)) xs None"
    using n(5) by simp
  from Cons.IH [OF h1 c1 dx(1) Cons.prems(4), of "destroy t w x"]
  obtain m' and c' :: cell where ih:
    "free_loop m1 (destroy t w x) t (Some pa) = Some (m', foldl (destroy t) (destroy t w x) xs)"
    "heap m' pa = Some (Cell c')" "next_c c' = None"
    by auto
  have "free_loop m w t (Some pa) = Some (m', foldl (destroy t) w (x # xs))"
    using step rm ih(1) by simp
  then show ?case using ih(2,3) by auto
qed

lemma remove_inv:
  assumes inv: "table_inv m t xs"
    and rel: "key_released t \<longrightarrow> k \<notin> set (keys_of xs) \<and> distinct (keys_of xs)"
  shows "\<exists>m'. table_remove m w t k = Some (m', foldl (destroy t) w (filter (matches t k) xs)) \<and>
           table_inv m' t (filter (\<lambda>x. \<not> matches t k x) xs) \<and>
           (filter (matches t k) xs = [] \<longrightarrow> m' = m)"
proof -
  from inv obtain h hc where h: "head (values_t t) = Some h" "heap m h = Some (Cell hc)"
    "chain m (next_c hc) xs None" "distinct (elems_of xs)" "freeFunc (values_t t) = Some free"
    by (auto simp: table_inv_iff)
  from remove_loop_inv [OF h(2,3,4,5) _ _ rel, of "[]" w]
  obtain m' and c' :: cell where r:
    "remove_loop m w [] t k (Some h) = Some (m', foldl (destroy t) w (filter (matches t k) xs))"
    "heap m' h = Some (Cell c')"
    "chain m' (next_c c') (filter (\<lambda>x. \<not> matches t k x) xs) None"
    "filter (matches t k) xs = [] \<longrightarrow> m' = m"
    by auto
  have "distinct (elems_of (filter (\<lambda>x. \<not> matches t k x) xs))"
    using h(4) by (simp add: elems_of_def distinct_map_filter)
  then have "table_inv m' t (filter (\<lambda>x. \<not> matches t k x) xs)"
    using h(1,5) r(2,3) by (auto simp: table_inv_iff)
  then show ?thesis
    using r(1,4) h(1) by (auto simp: table_remove_def dlist_first_def)
qed

lemma free_inv:
  assumes inv: "table_inv m t xs"
  shows "\<exists>m'. table_free m w t = Some (m', foldl (destroy t) w xs)"
proof -
  from inv obtain h hc where h: "head (values_t t) = Some h" "heap m h = Some (Cell hc)"
    "chain m (next_c hc) xs None" "distinct (elems_of xs)" "freeFunc (values_t t) = Some free"
    by (auto simp: table_inv_iff)
  from free_loop_inv [OF h(2,3,4,5), of w]
  obtain m' and c' :: cell where r:
    "free_loop m w t (Some h) = Some (m', foldl (destroy t) w xs)"
    "heap m' h = Some (Cell c')" "next_c c' = None"
    by auto
  have "dlist_free_loop m' (values_t t) = Some m'"
    using h(1) r(2,3)
    by (subst dlist_free_loop.simps) (simp add: dlist_isEmpty_def cell_at_def)
  then have "\<exists>m2. dlist_free m' (values_t t) = Some m2"
    using h(1) r(2) by (simp add: dlist_free_def free_def)
  then show ?thesis
    using r(1) h(1) by (auto simp: table_free_def dlist_first_def)
qed

lemma destroy_unregistered:
  "keyFree t = None \<Longrightarrow> valueFree t = None \<Longrightarrow> foldl (destroy t) w xs = w"
  by (induction xs) (simp_all add: destroy_def call_keyFree_def call_valueFree_def)

lemma lookup_hit_value:
  assumes inv: "table_inv m t (pre @ x # post)"
    and miss: "\<forall>z \<in> set pre. \<not> matches t k z" and hit: "matches t k x"
  shows "\<exists>m'. table_lookup m t k = Some (value_e (snd (snd x)), m')"
proof (cases pre rule: rev_cases)
  case Nil
  then show ?thesis
    using lookup_first [of m t x post k] inv hit by (auto simp: matches_def)
next
  case (snoc pre' y)
  then show ?thesis
    using lookup_later [of m t pre' y x post k] inv miss hit by (auto simp: matches_def)
qed

section \<open>More of the scenarios\<close>

lemma scenario_1_eq: "scenario_1 = Some (tableA, mem1)"
  by (simp add: scenario_1_def table_create_def table_insert_def malloc_def mem0_def
      dlist_empty_def store_def dlist_setMemHandler_def dlist_insert_def dlist_first_def
      cell_at_def set_next_def tableA_def mem1_def fun_eq_iff)

lemma scenario_N_eq: "scenario_N = Some (tableA, memN)"
  by (simp add: scenario_N_def table_create_def table_insert_def malloc_def mem0_def
      dlist_empty_def store_def dlist_setMemHandler_def dlist_insert_def dlist_first_def
      cell_at_def set_next_def tableA_def memN_def fun_eq_iff)

lemma scenario_R_eq: "scenario_R = Some (tableR, memR)"
  by (simp add: scenario_R_def table_create_def table_insert_def malloc_def memR0_def
      dlist_empty_def store_def dlist_setMemHandler_def dlist_insert_def dlist_first_def
      cell_at_def set_next_def tableR_def memR_def table_setKeyMemHandler_def fun_eq_iff)

lemma table_inv_R: "table_inv memR tableR [entry_x, entry_y]"
  by (simp add: table_inv_def tableR_def memR_def entry_x_def entry_y_def cell_at_def
      elem_at_def elems_of_def)

lemma matches_R [simp]:
  "matches tableR k entry_x = (key_at k = 3)" "matches tableR k entry_y = (key_at k = 3)"
  by (auto simp: matches_def tableR_def compare_at_def compare_int_def key_at_def
      entry_x_def entry_y_def)

lemma destroy_R [simp]: "destroy tableR w x = w @ [key (snd (snd x))]"
  by (simp add: destroy_def call_keyFree_def call_valueFree_def tableR_def free_key_def)

lemma key_released_R [simp]: "key_released tableR"
  by (simp add: key_released_def tableR_def free_key_def)

lemma key_R [simp]: "key (snd (snd entry_x)) = 30" "key (snd (snd entry_y)) = 31"
  by (simp_all add: entry_x_def entry_y_def)

lemma keys_R [simp]: "keys_of [entry_x, entry_y] = [30, 31]"
  by (simp add: keys_of_def)

lemma table_inv_N: "table_inv memN tableA [entry_null]"
  by (simp add: table_inv_def tableA_def memN_def entry_null_def cell_at_def elem_at_def
      elems_of_def)

lemma matches_N [simp]: "matches tableA k entry_null = (k = 7)"
  by (auto simp: matches_def tableA_def compare_int_def entry_null_def)

lemma mem_ok_0: "mem_ok mem0"
  by (simp add: mem_ok_def mem0_def)

lemma lookup_1_front:
  "table_lookup mem1 tableA 1 =
     Some (Some ''a'', mem1\<lparr>heap := (heap mem1)(4 \<mapsto> Cell \<lparr>data = Some 3, next_c = Some 4\<rparr>,
                                               2 \<mapsto> Cell \<lparr>data = None, next_c = None\<rparr>)\<rparr>)"
  unfolding table_lookup_def
  by (subst lookup_loop.simps)
    (simp add: dlist_first_def dlist_isEnd_def dlist_inspect_def move_to_front_def
      cell_at_def elem_at_def set_next_def tableA_def mem1_def compare_int_def fun_eq_iff)

lemma value_A [simp]:
  "value_e (snd (snd entry_a)) = Some ''a''" "value_e (snd (snd entry_b)) = Some ''b''"
  "value_e (snd (snd entry_c)) = Some ''c''"
  by (simp_all add: entry_a_def entry_b_def entry_c_def)

section \<open>The claims\<close>

text \<open>
  C1. After a successful lookup the matched entry is at the front and the other entries
  keep their order; on the table of scenario A, a lookup of key 1 returns \<open>a\<close> and leaves
  the order 1, 3, 2. The scenario holds. The general statement fails on the code where the
  match is the front entry: the position of the match is then the head sentinel, the three
  assignments of lines 120 to 126 make the matching cell point to itself and the head point
  past it, and the entry is lost. On the table of scenario A a lookup of key 3 returns \<open>c\<close>
  and leaves the entries 2, 1.
\<close>

theorem lookup_front_entry_lost:
  "table_inv memA tableA [entry_c, entry_b, entry_a] \<and>
   (case table_lookup memA tableA 1 of
      None \<Rightarrow> False
    | Some (v, m') \<Rightarrow> v = Some ''a'' \<and> table_inv m' tableA [entry_a, entry_c, entry_b]) \<and>
   (case table_lookup memA tableA 3 of
      None \<Rightarrow> False
    | Some (v, m') \<Rightarrow> v = Some ''c'' \<and> table_inv m' tableA [entry_b, entry_a] \<and>
        \<not> table_inv m' tableA [entry_c, entry_b, entry_a])"
proof -
  from lookup_later [of memA tableA "[entry_c]" entry_b entry_a "[]" 1] table_inv_A
  obtain m1 where m1: "table_lookup memA tableA 1 = Some (value_e (snd (snd entry_a)), m1)"
    "table_inv m1 tableA [entry_a, entry_c, entry_b]"
    by (auto simp: matches_def [symmetric])
  then have a: "case table_lookup memA tableA 1 of
      None \<Rightarrow> False
    | Some (v, m') \<Rightarrow> v = Some ''a'' \<and> table_inv m' tableA [entry_a, entry_c, entry_b]"
    by simp
  from lookup_first [of memA tableA entry_c "[entry_b, entry_a]" 3] table_inv_A
  obtain m' where m': "table_lookup memA tableA 3 = Some (value_e (snd (snd entry_c)), m')"
    "table_inv m' tableA [entry_b, entry_a]"
    by (auto simp: matches_def [symmetric])
  have "\<not> table_inv m' tableA [entry_c, entry_b, entry_a]"
    using table_inv_unique [OF m'(2)] by auto
  then have c: "case table_lookup memA tableA 3 of
      None \<Rightarrow> False
    | Some (v, m') \<Rightarrow> v = Some ''c'' \<and> table_inv m' tableA [entry_b, entry_a] \<and>
        \<not> table_inv m' tableA [entry_c, entry_b, entry_a]"
    using m' by simp
  show ?thesis using a c table_inv_A by simp
qed

text \<open>
  C2. When the front entry matches, the lookup is to leave the sequence as it is. The code
  has no test for this case and relinks: on the table that holds the one entry \<open>(1, a)\<close>, a
  lookup of key 1 returns \<open>a\<close> and leaves an empty table, whose former cell (address 4) points
  to itself and is no longer reachable from the head.
\<close>

theorem lookup_front_relinks:
  "table_inv mem1 tableA [entry_a] \<and> matches tableA 1 entry_a \<and>
   (case table_lookup mem1 tableA 1 of
      None \<Rightarrow> False
    | Some (v, m') \<Rightarrow> v = Some ''a'' \<and> table_inv m' tableA [] \<and>
        table_isEmpty m' tableA = Some True \<and>
        heap m' 4 = Some (Cell \<lparr>data = Some 3, next_c = Some 4\<rparr>))"
proof -
  define m' where "m' = mem1\<lparr>heap := (heap mem1)(4 \<mapsto> Cell \<lparr>data = Some 3, next_c = Some 4\<rparr>,
                                               2 \<mapsto> Cell \<lparr>data = None, next_c = None\<rparr>)\<rparr>"
  have run: "table_lookup mem1 tableA 1 = Some (Some ''a'', m')"
    unfolding m'_def by (rule lookup_1_front)
  have "table_inv m' tableA []"
    by (simp add: m'_def table_inv_def tableA_def cell_at_def elems_of_def)
  moreover have "table_isEmpty m' tableA = Some True"
    by (simp add: m'_def table_isEmpty_def dlist_isEmpty_def tableA_def cell_at_def)
  moreover have "heap m' 4 = Some (Cell \<lparr>data = Some 3, next_c = Some 4\<rparr>)"
    by (simp add: m'_def)
  ultimately show ?thesis using run table_inv_1 by simp
qed

text \<open>
  C3. When \<open>malloc\<close> has no storage for the new element, \<open>table_insert\<close> has no defined
  result: the result of \<open>malloc\<close> is not tested, \<open>e->key = key\<close> writes through \<open>NULL\<close>, and the
  function returns \<open>void\<close>, so that no failure is reported to the caller.
\<close>

theorem insert_malloc_failure_unchecked:
  "table_insert (m\<lparr>avail := []\<rparr>) t k v = None"
  by (simp add: table_insert_def malloc_def store_def)

text \<open>
  C4. Two lookups of a key in a row are to leave the table as one lookup leaves it. On the
  table of scenario A the first lookup of key 1 leaves the order 1, 3, 2; the second finds
  the match at the front and loses it, leaving 3, 2.
\<close>

theorem lookup_twice_differs:
  "table_inv memA tableA [entry_c, entry_b, entry_a] \<and>
   (case table_lookup memA tableA 1 of
      None \<Rightarrow> False
    | Some (v1, m1) \<Rightarrow>
        table_inv m1 tableA [entry_a, entry_c, entry_b] \<and>
        (case table_lookup m1 tableA 1 of
           None \<Rightarrow> False
         | Some (v2, m2) \<Rightarrow>
             table_inv m2 tableA [entry_c, entry_b] \<and>
             \<not> table_inv m2 tableA [entry_a, entry_c, entry_b]))"
proof -
  from lookup_later [of memA tableA "[entry_c]" entry_b entry_a "[]" 1] table_inv_A
  obtain m1 where m1: "table_lookup memA tableA 1 = Some (value_e (snd (snd entry_a)), m1)"
    "table_inv m1 tableA [entry_a, entry_c, entry_b]"
    by (auto simp: matches_def [symmetric])
  from lookup_first [OF m1(2), of 1]
  obtain m2 where m2: "table_lookup m1 tableA 1 = Some (value_e (snd (snd entry_a)), m2)"
    "table_inv m2 tableA [entry_c, entry_b]"
    by (auto simp: matches_def [symmetric])
  have "\<not> table_inv m2 tableA [entry_a, entry_c, entry_b]"
    using table_inv_unique [OF m2(2)] by auto
  then show ?thesis using m1 m2 table_inv_A by simp
qed

text \<open>
  C5. \<open>table_remove\<close> is to delete every entry whose key compares equal to \<open>k\<close>, for every
  \<open>k\<close>. It does so when the search key is not a key pointer the table holds (\<open>remove_inv\<close>):
  in scenario R the removal of key 32 deletes both entries and calls the key destructor once
  on 30 and once on 31. With the key pointer of the front entry as search key, line 151
  releases that key in the first turn of the loop and line 149 reads it again in the
  second turn: the removal of key 30 has no defined result, although both entries match.
\<close>

theorem remove_aliased_key_undefined:
  "table_inv memR tableR [entry_x, entry_y] \<and>
   matches tableR 32 entry_x \<and> matches tableR 32 entry_y \<and>
   (case table_remove memR [] tableR 32 of
      None \<Rightarrow> False
    | Some (m', w') \<Rightarrow> w' = [30, 31] \<and> table_inv m' tableR []) \<and>
   matches tableR 30 entry_x \<and> matches tableR 30 entry_y \<and>
   key (snd (snd entry_x)) = 30 \<and>
   table_remove memR [] tableR 30 = None"
proof -
  from remove_inv [OF table_inv_R, of 32 "[]"]
  obtain m' where "table_remove memR [] tableR 32 = Some (m', [30, 31])"
    "table_inv m' tableR []"
    by (auto simp: key_at_def)
  then have ok: "case table_remove memR [] tableR 32 of
      None \<Rightarrow> False
    | Some (m', w') \<Rightarrow> w' = [30, 31] \<and> table_inv m' tableR []"
    by simp
  define m1 where "m1 = memR\<lparr>heap := (heap memR)(2 \<mapsto> Cell \<lparr>data = None, next_c = Some 4\<rparr>,
      5 := None, 6 := None), avail := avail memR @ [5, 6]\<rparr>"
  have rm: "dlist_remove memR (values_t tableR) (Some 2) = Some (Some 2, m1)"
    by (simp add: dlist_remove_def cell_at_def set_next_def free_def tableR_def memR_def
        m1_def)
  have "remove_loop memR [] [] tableR 30 (Some 2) =
      remove_loop m1 [30] [30] tableR 30 (Some 2)"
    using remove_loop_step [of memR "Some 2" "\<lparr>data = None, next_c = Some 6\<rparr>"
        "\<lparr>data = Some 5, next_c = Some 4\<rparr>" "\<lparr>key = 30, value_e = Some ''x''\<rparr>"
        "[]" "[]" tableR 30] rm
    by (simp add: cell_at_def elem_at_def memR_def tableR_def compare_at_def compare_int_def
        call_keyFree_def call_valueFree_def released_def free_key_def)
  also have "\<dots> = None"
    using remove_loop_step [of m1 "Some 2" "\<lparr>data = None, next_c = Some 4\<rparr>"
        "\<lparr>data = Some 3, next_c = None\<rparr>" "\<lparr>key = 31, value_e = Some ''y''\<rparr>"
        "[30]" "[30]" tableR 30]
    by (simp add: cell_at_def elem_at_def memR_def m1_def)
  finally have "table_remove memR [] tableR 30 = None"
    by (simp add: table_remove_def dlist_first_def tableR_def)
  then show ?thesis
    using ok table_inv_R by (simp add: key_at_def)
qed

text \<open>
  C6. When both allocations succeed, \<open>table_insert\<close> puts the new entry in front of all the
  others, whatever keys the table holds already; its result does not depend on the
  comparator; and a lookup of \<open>k\<close> right after it returns \<open>v\<close>, the comparator returning zero
  on \<open>k\<close> and \<open>k\<close>.
\<close>

theorem insert_at_front:
  assumes "table_inv m t xs" and "mem_ok m" and "avail m = e # n # rest" and "cf t k k = 0"
  shows "\<exists>m'. table_insert m t k v = Some m' \<and>
           table_inv m' t ((n, e, \<lparr>key = k, value_e = v\<rparr>) # xs) \<and>
           (\<forall>c. table_insert m (t\<lparr>cf := c\<rparr>) k v = Some m') \<and>
           (\<exists>m''. table_lookup m' t k = Some (v, m''))"
proof -
  from insert_inv [OF assms(1,2,3), of k v]
  obtain m' where m': "table_insert m t k v = Some m'"
    "table_inv m' t ((n, e, \<lparr>key = k, value_e = v\<rparr>) # xs)"
    by blast
  have "table_insert m (t\<lparr>cf := c\<rparr>) k v = table_insert m t k v" for c
    by (simp add: table_insert_def)
  moreover have "\<exists>m''. table_lookup m' t k = Some (v, m'')"
    using lookup_first [OF m'(2), of k] assms(4) by auto
  ultimately show ?thesis using m' by auto
qed

theorem insert_at_front_witness:
  "table_inv memA tableA [entry_c, entry_b, entry_a] \<and> mem_ok memA \<and>
   cf tableA 3 3 = 0 \<and>
   (\<exists>m'. table_insert memA tableA 3 (Some ''z'') = Some m' \<and>
      table_inv m' tableA [(10, 9, \<lparr>key = 3, value_e = Some ''z''\<rparr>), entry_c, entry_b, entry_a] \<and>
      (\<exists>m''. table_lookup m' tableA 3 = Some (Some ''z'', m'')))"
proof -
  have "avail memA = 9 # 10 # []" by (simp add: memA_def)
  moreover have "cf tableA 3 3 = 0" by (simp add: tableA_def compare_int_def)
  ultimately show ?thesis
    using insert_at_front [of memA tableA "[entry_c, entry_b, entry_a]" 9 10 "[]" 3 "Some ''z''"]
      table_inv_A mem_ok_A
    by auto
qed

text \<open>
  C7. A lookup of a key that no entry of the table matches returns the not-found result
  (\<open>NULL\<close>) and leaves the memory, hence the contents and the order of the table, as it was:
  the scan reaches the end and nothing is written.
\<close>

theorem lookup_miss_unchanged:
  assumes "table_inv m t xs" and "\<forall>x \<in> set xs. \<not> matches t k x"
  shows "table_lookup m t k = Some (None, m)"
  using lookup_miss [OF assms(1), of k] assms(2) by (simp add: matches_def)

theorem lookup_miss_unchanged_witness:
  "table_inv memA tableA [entry_c, entry_b, entry_a] \<and>
   table_lookup memA tableA 9 = Some (None, memA)"
  using lookup_miss_unchanged [of memA tableA "[entry_c, entry_b, entry_a]" 9] table_inv_A
  by simp

text \<open>
  C8. The not-found result is to differ from every value a lookup can return. It does not:
  the not-found result is \<open>NULL\<close>, and \<open>NULL\<close> can be stored as a value. On the table that holds
  the one entry \<open>(7, NULL)\<close>, the lookup of the present key 7 and the lookup of the absent
  key 9 return the same.
\<close>

theorem lookup_null_value_counterexample:
  "table_inv memN tableA [entry_null] \<and> matches tableA 7 entry_null \<and>
   map_option fst (table_lookup memN tableA 7) = Some None \<and>
   map_option fst (table_lookup memN tableA 9) = Some None"
proof -
  have "\<exists>m'. table_lookup memN tableA 7 = Some (value_e (snd (snd entry_null)), m')"
    using lookup_hit_value [of memN tableA "[]" entry_null "[]" 7] table_inv_N by simp
  then have "map_option fst (table_lookup memN tableA 7) = Some None"
    by (auto simp: entry_null_def)
  moreover have "table_lookup memN tableA 9 = Some (None, memN)"
    using lookup_miss [OF table_inv_N, of 9] by (simp add: matches_def [symmetric])
  ultimately show ?thesis using table_inv_N by simp
qed

text \<open>
  C8, as amended. A lookup returns the value stored with the first matching entry, and
  \<open>NULL\<close> when no entry matches: the result of a successful lookup differs from the
  not-found result whenever the stored value is not \<open>NULL\<close>.
\<close>

theorem lookup_hit_not_null_differs:
  assumes "table_inv m t (pre @ x # post)" and "\<forall>z \<in> set pre. \<not> matches t k z"
    and "matches t k x" and "value_e (snd (snd x)) \<noteq> None"
    and "table_inv m2 t2 ys" and "\<forall>z \<in> set ys. \<not> matches t2 k2 z"
  shows "map_option fst (table_lookup m t k) = Some (value_e (snd (snd x))) \<and>
         map_option fst (table_lookup m2 t2 k2) = Some None \<and>
         map_option fst (table_lookup m t k) \<noteq> map_option fst (table_lookup m2 t2 k2)"
proof -
  from lookup_hit_value [OF assms(1,2,3)]
  obtain m' where "table_lookup m t k = Some (value_e (snd (snd x)), m')"
    by blast
  moreover have "table_lookup m2 t2 k2 = Some (None, m2)"
    using lookup_miss [OF assms(5), of k2] assms(6) by (simp add: matches_def)
  ultimately show ?thesis using assms(4) by simp
qed

theorem lookup_hit_not_null_differs_witness:
  "table_inv memA tableA ([entry_c] @ entry_b # [entry_a]) \<and>
   map_option fst (table_lookup memA tableA 2) = Some (Some ''b'') \<and>
   map_option fst (table_lookup memA tableA 9) = Some None"
  using lookup_hit_not_null_differs [of memA tableA "[entry_c]" entry_b "[entry_a]" 2
      memA tableA "[entry_c, entry_b, entry_a]" 9] table_inv_A
  by simp

text \<open>
  C9. \<open>table_isEmpty\<close> returns true if and only if the sequence of the table has no entry.
\<close>

theorem isEmpty_iff_no_entries:
  "table_inv m t xs \<Longrightarrow> table_isEmpty m t = Some (xs = [])"
  by (rule isEmpty_inv)

theorem isEmpty_iff_no_entries_witness:
  "table_inv memA tableA [entry_c, entry_b, entry_a] \<and>
   table_isEmpty memA tableA = Some False"
  using isEmpty_iff_no_entries [of memA tableA "[entry_c, entry_b, entry_a]"] table_inv_A
  by simp

text \<open>
  C10. When its allocations succeed, \<open>table_create\<close> returns a table with no key
  destructor, no value destructor and an empty sequence; as long as the struct is the one
  \<open>table_create\<close> returned (no destructor was registered since), \<open>table_remove\<close> and
  \<open>table_free\<close> return and leave the caller's world as it was, whatever the table holds: no
  destructor is called.
\<close>

theorem create_no_destructors:
  assumes "mem_ok m" and "avail m = a # h # rest"
  shows "\<exists>t m'. table_create m c = Some (Some t, m') \<and> keyFree t = None \<and> valueFree t = None \<and>
           table_inv m' t [] \<and>
           (\<forall>m2 xs w k. table_inv m2 t xs \<longrightarrow>
              (\<exists>m3. table_remove m2 w t k = Some (m3, w)) \<and>
              (\<exists>m3. table_free m2 w t = Some (m3, w)))"
proof -
  from create_inv [OF assms, of c]
  obtain t :: "('a, 'b, 'c) MyTable" and m' where t: "table_create m c = Some (Some t, m')"
    "table_inv m' t []" "keyFree t = None" "valueFree t = None"
    by blast
  have nr: "\<not> key_released t"
    using t(3) by (simp add: key_released_def)
  have "(\<exists>m3. table_remove m2 w t k = Some (m3, w)) \<and> (\<exists>m3. table_free m2 w t = Some (m3, w))"
    if "table_inv m2 t xs" for m2 xs w k
    using remove_inv [OF that, of k w] free_inv [OF that, of w] nr
    by (auto simp: destroy_unregistered [OF t(3,4)])
  then show ?thesis using t by blast
qed

theorem create_no_destructors_witness:
  "mem_ok mem0 \<and>
   (\<exists>t m'. table_create mem0 compare_int = Some (Some t, m') \<and>
      keyFree t = None \<and> valueFree t = None \<and> table_inv m' t [] \<and>
      (\<exists>m3. table_remove m' (5 :: nat) t 3 = Some (m3, 5)) \<and>
      (\<exists>m3. table_free m' (5 :: nat) t = Some (m3, 5)))"
  using create_no_destructors [of mem0 1 2 "[3, 4, 5, 6, 7, 8, 9, 10]" compare_int] mem_ok_0
  by (simp add: mem0_def) blast

end
